theory Spec2Isabelle
  imports Main "HOL-Library.Multiset"
begin

section \<open>Text\<close>

text \<open>
  Python strings are modelled as \<^typ>\<open>string\<close>, one \<^typ>\<open>char\<close> per code point, which
  covers the code points 0..255 (Latin-1). \<open>str.lower\<close>, \<open>str.isspace\<close> and the
  regular-expression classes \<open>\d\<close> and \<open>\w\<close> are written out for that range.
\<close>

definition isupper :: "char \<Rightarrow> bool" where
  "isupper c =
     (let n = (of_char c :: nat)
      in (65 \<le> n \<and> n \<le> 90) \<or> (192 \<le> n \<and> n \<le> 222 \<and> n \<noteq> 215))"

text \<open>
  The lowercase partner of an uppercase code point of this range is 32 above it: the same
  bits with bit 5 set.
\<close>

fun set_bit5 :: "char \<Rightarrow> char" where
  "set_bit5 (Char b0 b1 b2 b3 b4 b5 b6 b7) = Char b0 b1 b2 b3 b4 True b6 b7"

definition lower_char :: "char \<Rightarrow> char" where
  "lower_char c = (if isupper c then set_bit5 c else c)"

definition lower :: "string \<Rightarrow> string" where
  "lower s = map lower_char s"

definition isspace :: "char \<Rightarrow> bool" where
  "isspace c =
     (let n = (of_char c :: nat)
      in (9 \<le> n \<and> n \<le> 13) \<or> (28 \<le> n \<and> n \<le> 32) \<or> n = 133 \<or> n = 160)"

definition strip :: "string \<Rightarrow> string" where
  "strip s = rev (dropWhile isspace (rev (dropWhile isspace s)))"

text \<open>\<open>sub in text\<close> on strings: \<open>sub\<close> occurs as a contiguous substring.\<close>

fun startswith :: "string \<Rightarrow> string \<Rightarrow> bool" where
  "startswith text [] = True"
| "startswith [] (c # sub) = False"
| "startswith (d # text) (c # sub) = (d = c \<and> startswith text sub)"

fun str_in :: "string \<Rightarrow> string \<Rightarrow> bool" where
  "str_in sub [] = (sub = [])"
| "str_in sub (d # text) = (startswith (d # text) sub \<or> str_in sub text)"

text \<open>\<open>sep.join(parts)\<close>.\<close>

fun join :: "string \<Rightarrow> string list \<Rightarrow> string" where
  "join sep [] = []"
| "join sep [p] = p"
| "join sep (p # q # ps) = p @ sep @ join sep (q # ps)"

text \<open>\<open>s.endswith(('.', '!', '?'))\<close>.\<close>

definition is_terminator :: "char \<Rightarrow> bool" where
  "is_terminator c = (c = CHR ''.'' \<or> c = CHR ''!'' \<or> c = CHR ''?'')"

definition ends_with_terminator :: "string \<Rightarrow> bool" where
  "ends_with_terminator s = (case rev s of [] \<Rightarrow> False | c # _ \<Rightarrow> is_terminator c)"

section \<open>Session state: the keyword lists\<close>

datatype tier = HighTier | ModerateTier | RelevantTier

datatype relevance = High | Moderate | Relevant | Low

datatype error = ValueError

text \<open>
  \<open>st.session_state\<close>: the key \<open>keywords_initialized\<close> may be absent (\<open>None\<close>) or hold a
  boolean; the three keyword lists are empty while the key is absent.
\<close>

record session_state =
  keywords_initialized :: "bool option"
  high_keywords :: "string list"
  moderate_keywords :: "string list"
  relevant_keywords :: "string list"

definition default_high :: "string list" where
  "default_high =
    [''slb'', ''schlumberger'', ''halliburton'', ''baker hughes'', ''oilfield services'',
     ''drilling'', ''completion'', ''fracking'', ''hydraulic fracturing'', ''well services'',
     ''subsurface'', ''reservoir'', ''logging'', ''wireline'', ''coiled tubing'',
     ''artificial lift'', ''stimulation'', ''cementing'', ''mud logging'',
     ''directional drilling'', ''mwd'', ''lwd'', ''measurement while drilling'',
     ''carbon capture'', ''ccs'', ''ccus'', ''sequestration'', ''co2 injection'',
     ''digital oilfield'', ''petrotechnical'', ''geophysics'', ''petrophysics'']"

definition default_moderate :: "string list" where
  "default_moderate =
    [''exploration'', ''production'', ''upstream'', ''offshore'', ''deepwater'',
     ''unconventional'', ''shale'', ''tight oil'', ''enhanced recovery'',
     ''field development'', ''project sanctioning'', ''final investment decision'',
     ''technology'', ''innovation'', ''digitalization'', ''automation'',
     ''esg'', ''sustainability'', ''emissions'', ''decarbonization'',
     ''lng'', ''natural gas'', ''oil price'', ''commodity'', ''energy transition'']"

definition default_relevant :: "string list" where
  "default_relevant =
    [''refining'', ''downstream'', ''petrochemicals'', ''marketing'',
     ''renewable'', ''solar'', ''wind'', ''hydrogen'', ''electric vehicle'',
     ''pipeline'', ''midstream'', ''transportation'', ''storage'']"

definition fresh_session :: session_state where
  "fresh_session =
     \<lparr>keywords_initialized = None, high_keywords = [], moderate_keywords = [],
      relevant_keywords = []\<rparr>"

text \<open>
  The block at the top of the script, executed on every run:
  \<open>if 'keywords_initialized' not in st.session_state: ...\<close>. The test is on the presence
  of the key, not on its value.
\<close>

definition init_keywords :: "session_state \<Rightarrow> session_state" where
  "init_keywords st =
     (if keywords_initialized st = None
      then \<lparr>keywords_initialized = Some True, high_keywords = default_high,
            moderate_keywords = default_moderate, relevant_keywords = default_relevant\<rparr>
      else st)"

definition default_session :: session_state where
  "default_session = init_keywords fresh_session"

fun tier_keywords :: "tier \<Rightarrow> session_state \<Rightarrow> string list" where
  "tier_keywords HighTier st = high_keywords st"
| "tier_keywords ModerateTier st = moderate_keywords st"
| "tier_keywords RelevantTier st = relevant_keywords st"

fun set_tier :: "tier \<Rightarrow> string list \<Rightarrow> session_state \<Rightarrow> session_state" where
  "set_tier HighTier ks st = st\<lparr>high_keywords := ks\<rparr>"
| "set_tier ModerateTier ks st = st\<lparr>moderate_keywords := ks\<rparr>"
| "set_tier RelevantTier ks st = st\<lparr>relevant_keywords := ks\<rparr>"

text \<open>
  \<open>list.remove(x)\<close>: removes the first element equal to \<open>x\<close>, raises \<open>ValueError\<close> when
  there is none.
\<close>

definition list_remove :: "string \<Rightarrow> string list \<Rightarrow> error + string list" where
  "list_remove x xs = (if x \<in> set xs then Inr (remove1 x xs) else Inl ValueError)"

text \<open>
  The body of an arrow button of \<open>keyword_manager\<close>, for the keyword shown on its row:
  \<open>dst.append(keyword); src.remove(keyword)\<close>. When \<open>remove\<close> raises, the append has
  already happened; the error carries the session state it leaves behind.
\<close>

definition move_keyword ::
  "string \<Rightarrow> tier \<Rightarrow> tier \<Rightarrow> session_state \<Rightarrow> (error \<times> session_state) + session_state" where
  "move_keyword keyword src dst st =
     (let st1 = set_tier dst (tier_keywords dst st @ [keyword]) st
      in case list_remove keyword (tier_keywords src st1) of
           Inl e \<Rightarrow> Inl (e, st1)
         | Inr ks \<Rightarrow> Inr (set_tier src ks st1))"

text \<open>
  The body of an Add button:
  \<open>if button and new: if new.lower() not in [kw.lower() for kw in tier]: tier.append(new.lower())\<close>.
\<close>

definition add_keyword :: "tier \<Rightarrow> string \<Rightarrow> session_state \<Rightarrow> session_state" where
  "add_keyword t new st =
     (if new \<noteq> [] \<and> lower new \<notin> set (map lower (tier_keywords t st))
      then set_tier t (tier_keywords t st @ [lower new]) st
      else st)"

text \<open>
  The Reset button: \<open>st.session_state.keywords_initialized = False\<close>, followed by the rerun
  of the script, which executes the initialisation block again.
\<close>

definition reset_keywords :: "session_state \<Rightarrow> session_state" where
  "reset_keywords st = init_keywords (st\<lparr>keywords_initialized := Some False\<rparr>)"

section \<open>Stories and the relevance classifier\<close>

record story =
  title :: string
  link :: string
  description :: string
  date :: string
  author :: string
  categories :: string

text \<open>\<open>sum(1 for keyword in keywords if keyword in text)\<close>.\<close>

definition keyword_count :: "string list \<Rightarrow> string \<Rightarrow> nat" where
  "keyword_count keywords text = sum_list (map (\<lambda>keyword. 1) (filter (\<lambda>keyword. str_in keyword text) keywords))"

text \<open>\<open>f"{title} {description} {categories}"\<close> of the lowercased fields.\<close>

definition search_text :: "story \<Rightarrow> string" where
  "search_text s = lower (title s) @ '' '' @ lower (description s) @ '' '' @ lower (categories s)"

definition analyze_slb_relevance :: "session_state \<Rightarrow> story \<Rightarrow> relevance" where
  "analyze_slb_relevance st s =
     (let text = search_text s;
          high_count = keyword_count (map lower (high_keywords st)) text;
          moderate_count = keyword_count (map lower (moderate_keywords st)) text;
          relevant_count = keyword_count (map lower (relevant_keywords st)) text
      in if high_count \<ge> 2 \<or> str_in ''slb'' text \<or> str_in ''schlumberger'' text then High
         else if high_count \<ge> 1 \<or> moderate_count \<ge> 2 then Moderate
         else if moderate_count \<ge> 1 \<or> relevant_count \<ge> 1 then Relevant
         else Low)"

section \<open>Clicks in the keyword manager\<close>

text \<open>
  What a user can do to the keyword lists in one run of the script: press the Add button of
  a tab with a text in its input, press an arrow button on row \<open>i\<close> of a tab (the two
  arrows of a tab lead to the two other tabs), or press Reset. Each handler ends in
  \<open>st.rerun()\<close>, which executes the initialisation block again. A click that names no
  rendered button runs no handler.
\<close>

datatype click = AddClick tier string | MoveClick tier tier nat | ResetClick

fun handle_click :: "click \<Rightarrow> session_state \<Rightarrow> (error \<times> session_state) + session_state" where
  "handle_click (AddClick t new) st = Inr (init_keywords (add_keyword t new st))"
| "handle_click (MoveClick src dst i) st =
     (if src \<noteq> dst \<and> i < length (tier_keywords src st)
      then (case move_keyword (tier_keywords src st ! i) src dst st of
              Inl (e, st') \<Rightarrow> Inl (e, st')
            | Inr st' \<Rightarrow> Inr (init_keywords st'))
      else Inr st)"
| "handle_click ResetClick st = Inr (reset_keywords st)"

fun run_clicks :: "click list \<Rightarrow> session_state \<Rightarrow> (error \<times> session_state) + session_state" where
  "run_clicks [] st = Inr st"
| "run_clicks (c # cs) st =
     (case handle_click c st of Inl e \<Rightarrow> Inl e | Inr st' \<Rightarrow> run_clicks cs st')"

definition all_keywords :: "session_state \<Rightarrow> string list" where
  "all_keywords st = high_keywords st @ moderate_keywords st @ relevant_keywords st"

text \<open>No keyword is, up to case, in two tiers.\<close>

definition in_at_most_one_tier :: "session_state \<Rightarrow> bool" where
  "in_at_most_one_tier st =
     (set (map lower (high_keywords st)) \<inter> set (map lower (moderate_keywords st)) = {} \<and>
      set (map lower (high_keywords st)) \<inter> set (map lower (relevant_keywords st)) = {} \<and>
      set (map lower (moderate_keywords st)) \<inter> set (map lower (relevant_keywords st)) = {})"

text \<open>The keywords of the tiers other than \<open>t\<close>.\<close>

fun other_keywords :: "tier \<Rightarrow> session_state \<Rightarrow> string list" where
  "other_keywords HighTier st = moderate_keywords st @ relevant_keywords st"
| "other_keywords ModerateTier st = high_keywords st @ relevant_keywords st"
| "other_keywords RelevantTier st = high_keywords st @ moderate_keywords st"

text \<open>An Add click whose text is, up to case, a keyword of another tab.\<close>

fun cross_add :: "click \<Rightarrow> session_state \<Rightarrow> bool" where
  "cross_add (AddClick t new) st = (lower new \<in> set (map lower (other_keywords t st)))"
| "cross_add (MoveClick src dst i) st = False"
| "cross_add ResetClick st = False"

text \<open>No click of the sequence is such an Add, each looked at in the state it is made in.\<close>

fun no_cross_add :: "click list \<Rightarrow> session_state \<Rightarrow> bool" where
  "no_cross_add [] st = True"
| "no_cross_add (c # cs) st =
     (\<not> cross_add c st \<and>
      (case handle_click c st of Inl e \<Rightarrow> True | Inr st' \<Rightarrow> no_cross_add cs st'))"



section \<open>The feed parser\<close>

text \<open>
  An \<open>xml.etree.ElementTree\<close> element: its tag, its \<open>text\<close> (\<open>None\<close> when the element
  has no text before its first child) and its children in document order.
\<close>

datatype element = Element (elem_tag: string) (elem_text: "string option") (elem_children: "element list")

text \<open>\<open>Element.iter()\<close>: the element, then its descendants, in document order.\<close>

fun iter :: "element \<Rightarrow> element list" where
  "iter (Element t x cs) = Element t x cs # concat (map iter cs)"

text \<open>\<open>elem.find(name)\<close>: the first child with this tag.\<close>

definition find_child :: "string \<Rightarrow> element \<Rightarrow> element option" where
  "find_child name e = List.find (\<lambda>c. elem_tag c = name) (elem_children e)"

text \<open>\<open>elem.findall(name)\<close>: the children with this tag.\<close>

definition findall :: "string \<Rightarrow> element \<Rightarrow> element list" where
  "findall name e = filter (\<lambda>c. elem_tag c = name) (elem_children e)"

text \<open>
  \<open>elem.findall('.//name')\<close>: the elements of \<open>elem.iter(name)\<close> other than \<open>elem\<close>
  itself.
\<close>

definition findall_descendants :: "string \<Rightarrow> element \<Rightarrow> element list" where
  "findall_descendants name e = filter (\<lambda>c. elem_tag c = name) (tl (iter e))"

text \<open>\<open>x.text.strip() if x is not None and x.text else dflt\<close>.\<close>

definition stripped_text_or :: "string \<Rightarrow> element option \<Rightarrow> string" where
  "stripped_text_or dflt x =
     (case x of
        None \<Rightarrow> dflt
      | Some e \<Rightarrow>
          (case elem_text e of
             None \<Rightarrow> dflt
           | Some t \<Rightarrow> if t = [] then dflt else strip t))"

text \<open>The classes \<open>\d\<close> and \<open>\w\<close> of a Python 3 string pattern, on the code points 0..255.\<close>

definition isdigit :: "char \<Rightarrow> bool" where
  "isdigit c = (let n = (of_char c :: nat) in 48 \<le> n \<and> n \<le> 57)"

definition isword :: "char \<Rightarrow> bool" where
  "isword c =
     (let n = (of_char c :: nat)
      in (48 \<le> n \<and> n \<le> 57) \<or> (65 \<le> n \<and> n \<le> 90) \<or> n = 95 \<or> (97 \<le> n \<and> n \<le> 122) \<or>
         n = 170 \<or> n = 178 \<or> n = 179 \<or> n = 181 \<or> n = 185 \<or> n = 186 \<or>
         (188 \<le> n \<and> n \<le> 190) \<or> (192 \<le> n \<and> n \<le> 214) \<or> (216 \<le> n \<and> n \<le> 246) \<or>
         248 \<le> n)"

text \<open>
  Matching \<open>n\<close> characters of a class at the start of a string: the rest of the string
  when they are there.
\<close>

fun eat :: "(char \<Rightarrow> bool) \<Rightarrow> nat \<Rightarrow> string \<Rightarrow> string option" where
  "eat p 0 s = Some s"
| "eat p (Suc n) [] = None"
| "eat p (Suc n) (c # s) = (if p c then eat p n s else None)"

definition isblank :: "char \<Rightarrow> bool" where
  "isblank c = (c = CHR '' '')"

text \<open>The part \<open> \w{3} \d{4}\<close> of the pattern at the start of a string.\<close>

definition eat_month_year :: "string \<Rightarrow> string option" where
  "eat_month_year s =
     (case eat isblank (Suc 0) s of
        None \<Rightarrow> None
      | Some s1 \<Rightarrow>
          (case eat isword (Suc (Suc (Suc 0))) s1 of
             None \<Rightarrow> None
           | Some s2 \<Rightarrow>
               (case eat isblank (Suc 0) s2 of
                  None \<Rightarrow> None
                | Some s3 \<Rightarrow> eat isdigit (Suc (Suc (Suc (Suc 0)))) s3)))"

text \<open>
  The pattern \<open>\d{1,2} \w{3} \d{4}\<close> at the start of a string: the greedy \<open>\d{1,2}\<close> takes
  two digits first and falls back to one when the rest does not match.
\<close>

definition match_at :: "string \<Rightarrow> string option" where
  "match_at s =
     (case (case eat isdigit (Suc (Suc 0)) s of None \<Rightarrow> None | Some r \<Rightarrow> eat_month_year r) of
        Some r \<Rightarrow> Some (take 11 s)
      | None \<Rightarrow>
          (case (case eat isdigit (Suc 0) s of None \<Rightarrow> None | Some r \<Rightarrow> eat_month_year r) of
             Some r \<Rightarrow> Some (take 10 s)
           | None \<Rightarrow> None))"

text \<open>\<open>re.search(r'(\d{1,2} \w{3} \d{4})', s)\<close>: the match at the leftmost position.\<close>

fun re_search :: "string \<Rightarrow> string option" where
  "re_search [] = None"
| "re_search (c # s) =
     (case match_at (c # s) of Some m \<Rightarrow> Some m | None \<Rightarrow> re_search s)"

text \<open>
  The date of an item, from the text of its \<open>pubDate\<close> child (\<open>None\<close>: no such child, or
  a child without text).
\<close>

definition extract_date :: "string option \<Rightarrow> string" where
  "extract_date pub_date =
     (case pub_date of
        None \<Rightarrow> ''Unknown''
      | Some date_str \<Rightarrow>
          if date_str = [] then ''Unknown''
          else (case re_search date_str of
                  Some m \<Rightarrow> m
                | None \<Rightarrow> if length date_str > 10 then take 10 date_str else date_str))"

definition pub_date_text :: "element \<Rightarrow> string option" where
  "pub_date_text item =
     (case find_child ''pubDate'' item of None \<Rightarrow> None | Some e \<Rightarrow> elem_text e)"

text \<open>The stripped, non-empty texts of the \<open>category\<close> children.\<close>

definition category_texts :: "element \<Rightarrow> string list" where
  "category_texts item =
     map strip
       (filter (\<lambda>t. t \<noteq> [] \<and> strip t \<noteq> [])
          (map (\<lambda>c. case elem_text c of None \<Rightarrow> [] | Some t \<Rightarrow> t) (findall ''category'' item)))"

text \<open>The body of the loop over the items.\<close>

definition make_story :: "element \<Rightarrow> story" where
  "make_story item =
     \<lparr>title = stripped_text_or ''No title'' (find_child ''title'' item),
      link = stripped_text_or [] (find_child ''link'' item),
      description = stripped_text_or [] (find_child ''description'' item),
      date = extract_date (pub_date_text item),
      author = stripped_text_or ''Unknown'' (find_child ''author'' item),
      categories = join '', '' (category_texts item)\<rparr>"

text \<open>
  \<open>parse_rss_content\<close> on the outcome of \<open>ET.fromstring\<close>: \<open>None\<close> stands for a
  \<open>ParseError\<close>, which the function catches.
\<close>

definition parse_rss_content :: "element option \<Rightarrow> story list" where
  "parse_rss_content xml =
     (case xml of
        None \<Rightarrow> []
      | Some root \<Rightarrow>
          foldl (\<lambda>stories item. stories @ [make_story item]) [] (findall_descendants ''item'' root))"

section \<open>The editorial summary\<close>

text \<open>
  \<open>re.split(r'[.!?]+', s)\<close>: the pieces between the runs of terminators, the empty pieces
  at both ends included. The flag says that the character before was a terminator.
\<close>

fun split_from :: "bool \<Rightarrow> string \<Rightarrow> string list" where
  "split_from in_run [] = [[]]"
| "split_from in_run (c # s) =
     (if is_terminator c
      then (if in_run then split_from True s else [] # split_from True s)
      else (case split_from False s of
              [] \<Rightarrow> [[c]]
            | piece # pieces \<Rightarrow> (c # piece) # pieces))"

definition re_split :: "string \<Rightarrow> string list" where
  "re_split s = split_from False s"

text \<open>The loop over the sentences, with its two variables.\<close>

fun accumulate :: "string list \<Rightarrow> string list \<Rightarrow> nat \<Rightarrow> string list" where
  "accumulate [] summary_parts char_count = summary_parts"
| "accumulate (sentence # sentences) summary_parts char_count =
     (if char_count + length sentence > 250 then summary_parts
      else accumulate sentences (summary_parts @ [strip sentence]) (char_count + length sentence))"

definition add_full_stop :: "string \<Rightarrow> string" where
  "add_full_stop summary = (if \<not> ends_with_terminator summary then summary @ ''.'' else summary)"

text \<open>The value of \<open>summary\<close> before the final formatting.\<close>

definition summary_text :: "string \<Rightarrow> string" where
  "summary_text descr =
     (if length descr > 300
      then add_full_stop (join ''. '' (accumulate (re_split descr) [] 0))
      else add_full_stop (strip descr))"

definition create_editorial_summary :: "story \<Rightarrow> string" where
  "create_editorial_summary s = summary_text (description s) @ '' | '' @ date s @ '' | Upstream''"

section \<open>Notions of the specification\<close>

text \<open>\<open>sub\<close> is a contiguous part of \<open>text\<close>.\<close>

definition occurs_in :: "string \<Rightarrow> string \<Rightarrow> bool" where
  "occurs_in sub text = (\<exists>p q. text = p @ sub @ q)"

text \<open>The number of entries of a tier whose lowercase form occurs in the text.\<close>

definition entry_count :: "string list \<Rightarrow> string \<Rightarrow> nat" where
  "entry_count keywords text = length (filter (\<lambda>k. occurs_in (lower k) text) keywords)"

text \<open>The number of distinct keywords of a tier that occur in the text.\<close>

definition spec_distinct_count :: "string list \<Rightarrow> string \<Rightarrow> nat" where
  "spec_distinct_count keywords text = card {k \<in> set (map lower keywords). occurs_in k text}"

text \<open>The tier decision, first matching rule first.\<close>

definition tier_ladder :: "nat \<Rightarrow> nat \<Rightarrow> nat \<Rightarrow> bool \<Rightarrow> relevance" where
  "tier_ladder high_count moderate_count relevant_count name_found =
     (if high_count \<ge> 2 \<or> name_found then High
      else if high_count \<ge> 1 \<or> moderate_count \<ge> 2 then Moderate
      else if moderate_count \<ge> 1 \<or> relevant_count \<ge> 1 then Relevant
      else Low)"

text \<open>The classifier as the specification words it, on counts of distinct keywords.\<close>

definition spec_classify :: "session_state \<Rightarrow> story \<Rightarrow> relevance" where
  "spec_classify st s =
     tier_ladder (spec_distinct_count (high_keywords st) (search_text s))
       (spec_distinct_count (moderate_keywords st) (search_text s))
       (spec_distinct_count (relevant_keywords st) (search_text s))
       (occurs_in ''slb'' (search_text s) \<or> occurs_in ''schlumberger'' (search_text s))"

text \<open>
  The invariant of the keyword lists: the initialisation has run, and no keyword is there
  twice, up to case, in the three lists together.
\<close>

definition store_inv :: "session_state \<Rightarrow> bool" where
  "store_inv st = (keywords_initialized st \<noteq> None \<and> distinct (map lower (all_keywords st)))"

text \<open>
  One or two digits, a blank, three characters of the class \<open>cls\<close>, a blank, four digits.
\<close>

definition date_shape :: "(char \<Rightarrow> bool) \<Rightarrow> string \<Rightarrow> bool" where
  "date_shape cls m =
     (\<exists>ds ws ys. m = ds @ '' '' @ ws @ '' '' @ ys \<and>
        (length ds = 1 \<or> length ds = 2) \<and> list_all isdigit ds \<and>
        length ws = 3 \<and> list_all cls ws \<and>
        length ys = 4 \<and> list_all isdigit ys)"

text \<open>Some part of \<open>t\<close> has the shape.\<close>

definition has_date_match :: "(char \<Rightarrow> bool) \<Rightarrow> string \<Rightarrow> bool" where
  "has_date_match cls t = (\<exists>pre m post. t = pre @ m @ post \<and> date_shape cls m)"

text \<open>\<open>m\<close> is the part of \<open>t\<close> of the shape that starts first; no other starts there.\<close>

definition first_date_match :: "(char \<Rightarrow> bool) \<Rightarrow> string \<Rightarrow> string \<Rightarrow> bool" where
  "first_date_match cls t m =
     (\<exists>pre post. t = pre @ m @ post \<and> date_shape cls m \<and>
        (\<forall>pre' m' post'. t = pre' @ m' @ post' \<and> date_shape cls m' \<longrightarrow>
           length pre \<le> length pre' \<and> (length pre' = length pre \<longrightarrow> m' = m)))"

text \<open>The letters a month abbreviation is made of.\<close>

definition isletter :: "char \<Rightarrow> bool" where
  "isletter c = (let n = (of_char c :: nat) in (65 \<le> n \<and> n \<le> 90) \<or> (97 \<le> n \<and> n \<le> 122))"

text \<open>
  The accumulation of sentences as the specification words it: the sentences themselves,
  up to the first one that would push the running count over 250.
\<close>

fun spec_greedy :: "nat \<Rightarrow> string list \<Rightarrow> string list" where
  "spec_greedy running [] = []"
| "spec_greedy running (sentence # sentences) =
     (if running + length sentence > 250 then []
      else sentence # spec_greedy (running + length sentence) sentences)"

definition spec_summary_text :: "string \<Rightarrow> string" where
  "spec_summary_text descr = add_full_stop (join ''. '' (spec_greedy 0 (re_split descr)))"


section \<open>Sample inputs\<close>

definition plain_story :: "string \<Rightarrow> string \<Rightarrow> string \<Rightarrow> story" where
  "plain_story t d dt =
     \<lparr>title = t, link = [], description = d, date = dt, author = ''Unknown'', categories = []\<rparr>"

text \<open>The default vocabulary with \<open>drilling\<close> a second time at the end of a list.\<close>

definition drilling_in_moderate :: session_state where
  "drilling_in_moderate = default_session\<lparr>moderate_keywords := default_moderate @ [''drilling'']\<rparr>"

definition drilling_twice_in_high :: session_state where
  "drilling_twice_in_high = default_session\<lparr>high_keywords := default_high @ [''drilling'']\<rparr>"

definition two_sentences_and_tail :: string where
  "two_sentences_and_tail = ''Oil rose. Gas fell. '' @ replicate 300 CHR ''x''"

definition small_feed :: element where
  "small_feed =
     Element ''rss'' None
       [Element ''channel'' None
          [Element ''title'' (Some ''Feed'') [],
           Element ''item'' None
             [Element ''title'' (Some '' First '') [],
              Element ''pubDate'' (Some ''Fri, 20 Jun 2025 18:11:59 +0200'') []],
           Element ''group'' None
             [Element ''item'' None [Element ''title'' (Some ''Second'') []]]]]"

text \<open>An item whose publication date has three digits where the month is expected.\<close>

definition odd_date_item :: element where
  "odd_date_item =
     Element ''item'' None
       [Element ''title'' (Some ''Rig count'') [],
        Element ''pubDate'' (Some ''10 123 2025'') []]"

definition odd_date_feed :: element where
  "odd_date_feed = Element ''rss'' None [Element ''channel'' None [odd_date_item]]"

section \<open>Properties of the text functions\<close>

lemma not_isupper_set_bit5: "\<not> isupper (set_bit5 c)"
proof (cases c)
  case (Char b0 b1 b2 b3 b4 b5 b6 b7)
  show ?thesis
    unfolding Char set_bit5.simps isupper_def Let_def
    by (cases b6; cases b7; simp; linarith?)
qed

lemma lower_char_idem: "lower_char (lower_char c) = lower_char c"
  by (simp add: lower_char_def not_isupper_set_bit5)

lemma lower_idem: "lower (lower s) = lower s"
  by (simp add: lower_def lower_char_idem)

lemmas text_defs = lower_def lower_char_def isupper_def strip_def isspace_def

section \<open>Properties of the keyword lists\<close>

lemma lower_default_high: "map lower default_high = default_high"
  by (simp add: default_high_def text_defs)

lemma lower_default_moderate: "map lower default_moderate = default_moderate"
  by (simp add: default_moderate_def text_defs)

lemma lower_default_relevant: "map lower default_relevant = default_relevant"
  by (simp add: default_relevant_def text_defs)

lemma default_distinct: "distinct (default_high @ default_moderate @ default_relevant)"
  by (simp add: default_high_def default_moderate_def default_relevant_def)

lemma default_session_eq:
  "default_session =
     \<lparr>keywords_initialized = Some True, high_keywords = default_high,
      moderate_keywords = default_moderate, relevant_keywords = default_relevant\<rparr>"
  by (simp add: default_session_def init_keywords_def fresh_session_def)

lemma store_inv_default: "store_inv default_session"
  using default_distinct
  by (simp add: store_inv_def default_session_eq all_keywords_def
      lower_default_high lower_default_moderate lower_default_relevant)

lemma init_keywords_initialized: "keywords_initialized st \<noteq> None \<Longrightarrow> init_keywords st = st"
  by (auto simp: init_keywords_def)

lemma store_inv_add:
  assumes "store_inv st" "\<not> cross_add (AddClick t new) st"
  shows "store_inv (init_keywords (add_keyword t new st))"
proof (cases "new \<noteq> [] \<and> lower new \<notin> set (map lower (tier_keywords t st))")
  case False
  then have "add_keyword t new st = st" by (auto simp: add_keyword_def)
  with assms(1) show ?thesis by (simp add: init_keywords_initialized store_inv_def)
next
  case True
  then have eq: "add_keyword t new st = set_tier t (tier_keywords t st @ [lower new]) st"
    by (simp add: add_keyword_def)
  have "store_inv (set_tier t (tier_keywords t st @ [lower new]) st)"
    using assms True
    by (cases t) (auto simp: store_inv_def all_keywords_def lower_idem)
  then show ?thesis by (simp add: eq init_keywords_initialized store_inv_def)
qed

lemma move_keyword_ok:
  assumes "keyword \<in> set (tier_keywords src st)" "src \<noteq> dst"
  shows "move_keyword keyword src dst st =
           Inr (set_tier src (remove1 keyword (tier_keywords src st))
                  (set_tier dst (tier_keywords dst st @ [keyword]) st))"
  using assms by (cases src; cases dst) (simp_all add: move_keyword_def list_remove_def)

lemma move_mset:
  assumes "keyword \<in> set (tier_keywords src st)" "src \<noteq> dst"
  shows "mset (all_keywords (set_tier src (remove1 keyword (tier_keywords src st))
                  (set_tier dst (tier_keywords dst st @ [keyword]) st))) = mset (all_keywords st)"
  using assms by (cases src; cases dst) (simp_all add: all_keywords_def)

lemma store_inv_move:
  assumes "store_inv st" "keyword \<in> set (tier_keywords src st)" "src \<noteq> dst"
  shows "store_inv (set_tier src (remove1 keyword (tier_keywords src st))
                  (set_tier dst (tier_keywords dst st @ [keyword]) st))" (is "store_inv ?st'")
proof -
  have "mset (map lower (all_keywords ?st')) = mset (map lower (all_keywords st))"
    using move_mset[OF assms(2,3)] by (metis mset_map)
  then have "distinct (map lower (all_keywords ?st')) = distinct (map lower (all_keywords st))"
    by (rule mset_eq_imp_distinct_iff)
  moreover have "keywords_initialized ?st' = keywords_initialized st"
    by (cases src; cases dst) simp_all
  ultimately show ?thesis using assms(1) by (simp add: store_inv_def)
qed

lemma reset_keywords_lists:
  "reset_keywords st = st\<lparr>keywords_initialized := Some False\<rparr>"
  by (simp add: reset_keywords_def init_keywords_def)

lemma store_inv_reset: "store_inv st \<Longrightarrow> store_inv (reset_keywords st)"
  by (simp add: store_inv_def reset_keywords_lists all_keywords_def)

lemma handle_click_inv:
  assumes "store_inv st" "\<not> cross_add c st"
  shows "\<exists>st'. handle_click c st = Inr st' \<and> store_inv st'"
proof (cases c)
  case (AddClick t new)
  then show ?thesis using assms store_inv_add by simp
next
  case (MoveClick src dst i)
  show ?thesis
  proof (cases "src \<noteq> dst \<and> i < length (tier_keywords src st)")
    case True
    then have mem: "tier_keywords src st ! i \<in> set (tier_keywords src st)" by simp
    from True have ne: "src \<noteq> dst" by simp
    have inv': "store_inv (set_tier src (remove1 (tier_keywords src st ! i) (tier_keywords src st))
                  (set_tier dst (tier_keywords dst st @ [tier_keywords src st ! i]) st))"
      by (rule store_inv_move[OF assms(1) mem ne])
    then show ?thesis
      using True MoveClick move_keyword_ok[OF mem ne]
      by (simp add: init_keywords_initialized store_inv_def)
  next
    case False
    then show ?thesis using MoveClick assms(1) by auto
  qed
next
  case ResetClick
  then show ?thesis using assms(1) store_inv_reset by simp
qed

lemma run_clicks_inv:
  "store_inv st \<Longrightarrow> no_cross_add cs st \<Longrightarrow> \<exists>st'. run_clicks cs st = Inr st' \<and> store_inv st'"
proof (induction cs arbitrary: st)
  case Nil
  then show ?case by simp
next
  case (Cons c cs)
  from Cons.prems obtain st1 where 1: "handle_click c st = Inr st1" "store_inv st1"
    using handle_click_inv[of st c] by auto
  with Cons.prems have "no_cross_add cs st1" by simp
  from Cons.IH[OF 1(2) this] 1(1) show ?case by simp
qed

lemma store_inv_at_most_one: "store_inv st \<Longrightarrow> in_at_most_one_tier st"
  by (auto simp: store_inv_def in_at_most_one_tier_def all_keywords_def)

lemma add_drilling_to_moderate:
  "add_keyword ModerateTier ''Drilling'' default_session = drilling_in_moderate"
proof -
  have "lower ''Drilling'' = ''drilling''" by (simp add: text_defs)
  moreover have "''drilling'' \<notin> set default_moderate" by (simp add: default_moderate_def)
  ultimately show ?thesis
    by (simp add: add_keyword_def drilling_in_moderate_def default_session_eq lower_default_moderate)
qed

lemma drilling_in_moderate_initialized: "init_keywords drilling_in_moderate = drilling_in_moderate"
  by (simp add: init_keywords_def drilling_in_moderate_def default_session_eq)

text \<open>
  Claim C3, as stated, fails: one Add click in the Moderate tab with the text \<open>Drilling\<close>,
  made on the default vocabulary, leaves \<open>drilling\<close> in the high and in the moderate list.
  The Add handler looks for the keyword in the list of its own tab only.
\<close>

theorem add_breaks_one_tier:
  "run_clicks [AddClick ModerateTier ''Drilling''] default_session = Inr drilling_in_moderate
   \<and> \<not> in_at_most_one_tier drilling_in_moderate"
proof -
  have "''drilling'' \<in> set default_high" by (simp add: default_high_def)
  then have "''drilling'' \<in> set (map lower (high_keywords drilling_in_moderate))
      \<inter> set (map lower (moderate_keywords drilling_in_moderate))"
    by (simp add: drilling_in_moderate_def default_session_eq lower_default_high lower_def[of "''drilling''"] lower_char_def isupper_def lower_default_moderate)
  then have "\<not> in_at_most_one_tier drilling_in_moderate"
    unfolding in_at_most_one_tier_def by blast
  then show ?thesis
    by (simp add: add_drilling_to_moderate drilling_in_moderate_initialized)
qed

text \<open>
  Claim C3, amended: starting from the default vocabulary, after every finite sequence of
  add, move and reset clicks in which no Add click gives a text that is, up to case, already
  a keyword of another tier, no click has raised and each keyword is, up to case, in at
  most one of the three tiers (and there only once).
\<close>

theorem one_tier_without_cross_add:
  "no_cross_add cs default_session \<Longrightarrow>
   (\<exists>st. run_clicks cs default_session = Inr st \<and> in_at_most_one_tier st
         \<and> distinct (map lower (all_keywords st)))"
  using run_clicks_inv[OF store_inv_default] store_inv_at_most_one
  by (fastforce simp: store_inv_def)

text \<open>The amended claim C3 on a sequence of an add, a reset and a move.\<close>

theorem one_tier_without_cross_add_witness:
  "no_cross_add [AddClick RelevantTier ''Geothermal'', ResetClick, MoveClick HighTier ModerateTier 0] default_session \<and>
   (\<exists>st. run_clicks [AddClick RelevantTier ''Geothermal'', ResetClick, MoveClick HighTier ModerateTier 0] default_session = Inr st
      \<and> in_at_most_one_tier st \<and> distinct (map lower (all_keywords st)))"
proof -
  have low: "lower ''Geothermal'' = ''geothermal''" by (simp add: text_defs)
  have h: "no_cross_add [AddClick RelevantTier ''Geothermal'', ResetClick, MoveClick HighTier ModerateTier 0] default_session"
    by (simp add: low default_session_eq lower_default_high lower_default_moderate lower_default_relevant
        add_keyword_def init_keywords_def reset_keywords_def move_keyword_def list_remove_def)
       (simp add: default_high_def default_moderate_def default_relevant_def)
  show ?thesis using h one_tier_without_cross_add[OF h] by simp
qed







lemma move_keyword_present:
  assumes "keyword \<in> set (tier_keywords src st)"
  shows "move_keyword keyword src dst st =
           Inr (set_tier src (remove1 keyword (tier_keywords src (set_tier dst (tier_keywords dst st @ [keyword]) st)))
                  (set_tier dst (tier_keywords dst st @ [keyword]) st))"
  using assms by (cases src; cases dst) (simp_all add: move_keyword_def list_remove_def)

lemma round_trip_same_list:
  assumes "k \<in> set xs"
  shows "mset (remove1 k (remove1 k (xs @ [k]) @ [k])) = mset xs"
  using assms by (simp add: mset_remove1 del: mset_append remove1_append) (simp add: mset_remove1)

text \<open>
  Claim C9: for a keyword of tier \<open>a\<close>, moving it to tier \<open>b\<close> and back, with nothing
  in between, succeeds both times and restores the membership of all three tiers: each
  list has the same elements, with the same multiplicities, as before.
\<close>

theorem move_round_trip:
  assumes "keyword \<in> set (tier_keywords a st)"
  shows "\<exists>st1 st2. move_keyword keyword a b st = Inr st1 \<and> move_keyword keyword b a st1 = Inr st2 \<and>
           mset (high_keywords st2) = mset (high_keywords st) \<and>
           mset (moderate_keywords st2) = mset (moderate_keywords st) \<and>
           mset (relevant_keywords st2) = mset (relevant_keywords st) \<and>
           set (high_keywords st2) = set (high_keywords st) \<and>
           set (moderate_keywords st2) = set (moderate_keywords st) \<and>
           set (relevant_keywords st2) = set (relevant_keywords st)"
proof -
  let ?st1 = "set_tier a (remove1 keyword (tier_keywords a (set_tier b (tier_keywords b st @ [keyword]) st)))
                  (set_tier b (tier_keywords b st @ [keyword]) st)"
  have 1: "move_keyword keyword a b st = Inr ?st1" by (rule move_keyword_present[OF assms])
  have mem: "keyword \<in> set (tier_keywords b ?st1)"
    using assms by (cases a; cases b) (auto simp: remove1_append)
  let ?st2 = "set_tier b (remove1 keyword (tier_keywords b (set_tier a (tier_keywords a ?st1 @ [keyword]) ?st1)))
                  (set_tier a (tier_keywords a ?st1 @ [keyword]) ?st1)"
  have 2: "move_keyword keyword b a ?st1 = Inr ?st2" by (rule move_keyword_present[OF mem])
  have m: "mset (high_keywords ?st2) = mset (high_keywords st) \<and>
           mset (moderate_keywords ?st2) = mset (moderate_keywords st) \<and>
           mset (relevant_keywords ?st2) = mset (relevant_keywords st)"
    using assms round_trip_same_list[of keyword]
    by (cases a; cases b) (simp_all del: remove1_append mset_append, simp_all)
  then have s: "set (high_keywords ?st2) = set (high_keywords st) \<and>
           set (moderate_keywords ?st2) = set (moderate_keywords st) \<and>
           set (relevant_keywords ?st2) = set (relevant_keywords st)"
    by (metis set_mset_mset)
  from 1 2 m s show ?thesis by blast
qed

text \<open>Claim C9 on \<open>slb\<close>, moved from High to Relevant and back.\<close>

theorem move_round_trip_witness:
  "''slb'' \<in> set (tier_keywords HighTier default_session) \<and>
   (\<exists>st1 st2. move_keyword ''slb'' HighTier RelevantTier default_session = Inr st1 \<and>
           move_keyword ''slb'' RelevantTier HighTier st1 = Inr st2 \<and>
           mset (high_keywords st2) = mset (high_keywords default_session) \<and>
           mset (moderate_keywords st2) = mset (moderate_keywords default_session) \<and>
           mset (relevant_keywords st2) = mset (relevant_keywords default_session) \<and>
           set (high_keywords st2) = set (high_keywords default_session) \<and>
           set (moderate_keywords st2) = set (moderate_keywords default_session) \<and>
           set (relevant_keywords st2) = set (relevant_keywords default_session))"
proof -
  have h: "''slb'' \<in> set (tier_keywords HighTier default_session)"
    by (simp add: default_session_eq default_high_def)
  show ?thesis using h move_round_trip[OF h, of RelevantTier] by simp
qed

section \<open>Properties of the classifier\<close>

lemma startswith_iff: "startswith t sub \<longleftrightarrow> (\<exists>q. t = sub @ q)"
  by (induction t sub rule: startswith.induct) auto

lemma str_in_iff: "str_in sub t \<longleftrightarrow> occurs_in sub t"
proof (induction t)
  case Nil
  then show ?case by (simp add: occurs_in_def)
next
  case (Cons d t)
  show ?case
  proof
    assume "str_in sub (d # t)"
    then consider "startswith (d # t) sub" | "str_in sub t" by auto
    then show "occurs_in sub (d # t)"
    proof cases
      case 1
      then obtain q where "d # t = sub @ q" using startswith_iff by blast
      then have "d # t = [] @ sub @ q" by simp
      then show ?thesis unfolding occurs_in_def by blast
    next
      case 2
      then obtain p q where "t = p @ sub @ q" using Cons.IH occurs_in_def by auto
      then have "d # t = (d # p) @ sub @ q" by simp
      then show ?thesis unfolding occurs_in_def by blast
    qed
  next
    assume "occurs_in sub (d # t)"
    then obtain p q where pq: "d # t = p @ sub @ q" unfolding occurs_in_def by blast
    show "str_in sub (d # t)"
    proof (cases p)
      case Nil
      then have "startswith (d # t) sub" using pq startswith_iff by auto
      then show ?thesis by simp
    next
      case (Cons e p')
      then have "t = p' @ sub @ q" using pq by simp
      then have "occurs_in sub t" unfolding occurs_in_def by blast
      then show ?thesis using Cons.IH by simp
    qed
  qed
qed

lemma keyword_count_length:
  "keyword_count ks t = length (filter (\<lambda>k. str_in k t) ks)"
  unfolding keyword_count_def by (induction ks) auto

lemma keyword_count_entry_count:
  "keyword_count (map lower ks) t = entry_count ks t"
  by (simp add: keyword_count_length entry_count_def str_in_iff filter_map comp_def)

lemma keyword_count_append:
  "keyword_count (xs @ ys) t = keyword_count xs t + keyword_count ys t"
  by (simp add: keyword_count_length)

lemma spec_distinct_count_remdups:
  "spec_distinct_count ks t = length (remdups (filter (\<lambda>k. str_in k t) (map lower ks)))"
proof -
  have "{k \<in> set (map lower ks). occurs_in k t} = set (filter (\<lambda>k. str_in k t) (map lower ks))"
    by (auto simp: str_in_iff)
  then show ?thesis by (simp add: spec_distinct_count_def length_remdups_card_conv)
qed

lemma spec_distinct_count_distinct:
  assumes "distinct (map lower ks)"
  shows "spec_distinct_count ks t = entry_count ks t"
proof -
  have "distinct (filter (\<lambda>k. str_in k t) (map lower ks))" using assms by simp
  then have "remdups (filter (\<lambda>k. str_in k t) (map lower ks))
        = filter (\<lambda>k. str_in k t) (map lower ks)" by (rule distinct_remdups_id)
  moreover have "length (filter (\<lambda>k. str_in k t) (map lower ks)) = entry_count ks t"
    using keyword_count_entry_count[of ks t] unfolding keyword_count_length .
  ultimately show ?thesis by (simp only: spec_distinct_count_remdups)
qed

lemma analyze_ladder:
  "analyze_slb_relevance st s =
     tier_ladder (entry_count (high_keywords st) (search_text s))
       (entry_count (moderate_keywords st) (search_text s))
       (entry_count (relevant_keywords st) (search_text s))
       (occurs_in ''slb'' (search_text s) \<or> occurs_in ''schlumberger'' (search_text s))"
  by (simp add: analyze_slb_relevance_def Let_def tier_ladder_def keyword_count_entry_count str_in_iff)

text \<open>
  Claim C1, amended: on the lowercase search text built as "title description categories",
  the classifier returns High if at least 2 entries of the high list occur in the text or
  \<open>slb\<close> or \<open>schlumberger\<close> occurs in it, otherwise Moderate if the high count is at
  least 1 or the moderate count at least 2, otherwise Relevant if the moderate or the
  relevant count is at least 1, otherwise Low. Each count is the number of entries of the
  list whose lowercase form occurs in the text: an entry counts once however often it
  occurs in the text, and a keyword listed twice counts twice. When no list holds a
  keyword twice, the counts are numbers of distinct keywords.
\<close>

theorem classify_counts_entries:
  "search_text s = lower (title s @ '' '' @ description s @ '' '' @ categories s) \<and>
   analyze_slb_relevance st s =
     tier_ladder (entry_count (high_keywords st) (search_text s))
       (entry_count (moderate_keywords st) (search_text s))
       (entry_count (relevant_keywords st) (search_text s))
       (occurs_in ''slb'' (search_text s) \<or> occurs_in ''schlumberger'' (search_text s)) \<and>
   (distinct (map lower (high_keywords st)) \<and> distinct (map lower (moderate_keywords st)) \<and>
    distinct (map lower (relevant_keywords st)) \<longrightarrow>
      analyze_slb_relevance st s = spec_classify st s)"
proof -
  have 1: "search_text s = lower (title s @ '' '' @ description s @ '' '' @ categories s)"
    by (simp add: search_text_def lower_def lower_char_def isupper_def)
  have 2: "distinct (map lower (high_keywords st)) \<and> distinct (map lower (moderate_keywords st)) \<and>
    distinct (map lower (relevant_keywords st)) \<longrightarrow>
      analyze_slb_relevance st s = spec_classify st s"
    by (simp add: analyze_ladder spec_classify_def spec_distinct_count_distinct)
  from 1 2 analyze_ladder show ?thesis by blast
qed

lemma drilling_text: "search_text (plain_story ''Drilling'' [] []) = ''drilling  ''"
  by (simp add: search_text_def plain_story_def text_defs)

lemma add_then_move_drilling:
  "run_clicks [AddClick ModerateTier ''Drilling'', MoveClick ModerateTier HighTier 25] default_session
     = Inr drilling_twice_in_high"
proof -
  have len: "length default_moderate = 25" by (simp add: default_moderate_def)
  have nth: "(default_moderate @ [''drilling'']) ! 25 = ''drilling''"
    using len by (simp add: nth_append)
  have rem: "remove1 ''drilling'' (default_moderate @ [''drilling'']) = default_moderate"
    by (simp add: default_moderate_def)
  show ?thesis
    by (simp add: add_drilling_to_moderate drilling_in_moderate_initialized)
       (simp add: drilling_in_moderate_def drilling_twice_in_high_def default_session_eq len nth
          move_keyword_def list_remove_def rem init_keywords_def)
qed

text \<open>
  Claim C1, as stated, fails: after an Add of \<open>Drilling\<close> in the Moderate tab and a move
  of that row to High, the high list holds \<open>drilling\<close> twice. A story whose text has this
  one high keyword once is classified High by the code, and Moderate by the ladder on
  counts of distinct keywords.
\<close>

theorem twice_listed_keyword_gives_high:
  "run_clicks [AddClick ModerateTier ''Drilling'', MoveClick ModerateTier HighTier 25] default_session
     = Inr drilling_twice_in_high \<and>
   analyze_slb_relevance drilling_twice_in_high (plain_story ''Drilling'' [] []) = High \<and>
   spec_classify drilling_twice_in_high (plain_story ''Drilling'' [] []) = Moderate"
proof -
  have low: "lower ''drilling'' = ''drilling''" by (simp add: text_defs)
  have hs: "filter (\<lambda>k. str_in k ''drilling  '') default_high = [''drilling'']"
    by (simp add: default_high_def)
  have ms: "filter (\<lambda>k. str_in k ''drilling  '') default_moderate = []"
    by (simp add: default_moderate_def)
  have rs: "filter (\<lambda>k. str_in k ''drilling  '') default_relevant = []"
    by (simp add: default_relevant_def)
  have a: "analyze_slb_relevance drilling_twice_in_high (plain_story ''Drilling'' [] []) = High"
    by (simp add: analyze_slb_relevance_def Let_def drilling_text keyword_count_length
        drilling_twice_in_high_def default_session_eq lower_default_high lower_default_moderate
        lower_default_relevant low hs ms rs del: str_in.simps)
       simp
  have b: "spec_classify drilling_twice_in_high (plain_story ''Drilling'' [] []) = Moderate"
    by (simp add: spec_classify_def spec_distinct_count_remdups drilling_text
        drilling_twice_in_high_def default_session_eq lower_default_high lower_default_moderate
        lower_default_relevant low hs ms rs tier_ladder_def del: str_in.simps flip: str_in_iff)
       (simp add: occurs_in_def Cons_eq_append_conv append_eq_Cons_conv)
  from a b add_then_move_drilling show ?thesis by blast
qed

text \<open>The amended claim C1 on the default vocabulary, whose lists hold no keyword twice.\<close>

theorem classify_counts_entries_witness:
  "distinct (map lower (high_keywords default_session)) \<and>
   distinct (map lower (moderate_keywords default_session)) \<and>
   distinct (map lower (relevant_keywords default_session)) \<and>
   analyze_slb_relevance default_session (plain_story ''Drilling'' [] []) = Moderate \<and>
   spec_classify default_session (plain_story ''Drilling'' [] []) = Moderate"
proof -
  have d: "distinct (map lower (high_keywords default_session)) \<and>
   distinct (map lower (moderate_keywords default_session)) \<and>
   distinct (map lower (relevant_keywords default_session))"
    using default_distinct
    by (simp add: default_session_eq lower_default_high lower_default_moderate lower_default_relevant)
  have hs: "filter (\<lambda>k. str_in k ''drilling  '') default_high = [''drilling'']"
    by (simp add: default_high_def)
  have ms: "filter (\<lambda>k. str_in k ''drilling  '') default_moderate = []"
    by (simp add: default_moderate_def)
  have a: "analyze_slb_relevance default_session (plain_story ''Drilling'' [] []) = Moderate"
    by (simp add: analyze_slb_relevance_def Let_def drilling_text keyword_count_length
        default_session_eq lower_default_high lower_default_moderate hs ms del: str_in.simps)
       simp
  have t: "analyze_slb_relevance default_session (plain_story ''Drilling'' [] [])
      = spec_classify default_session (plain_story ''Drilling'' [] [])"
    using d classify_counts_entries[of "plain_story ''Drilling'' [] []" default_session]
    by blast
  have b: "spec_classify default_session (plain_story ''Drilling'' [] []) = Moderate"
    using a t by metis
  from d a b show ?thesis by blast
qed

lemma entry_count_append: "entry_count (xs @ ys) t = entry_count xs t + entry_count ys t"
  by (simp add: entry_count_def)

lemma spec_distinct_count_set:
  "set xs = set ys \<Longrightarrow> spec_distinct_count xs t = spec_distinct_count ys t"
  by (simp add: spec_distinct_count_def)

lemma entry_count_Cons:
  "entry_count (x # xs) t = (if occurs_in (lower x) t then 1 else 0) + entry_count xs t"
  by (simp add: entry_count_def)

lemma entry_count_Nil: "entry_count [] t = 0"
  by (simp add: entry_count_def)

lemma entry_count_copies:
  "occurs_in (lower k) t \<Longrightarrow> entry_count (filter (\<lambda>x. x = k) xs) t = count_list xs k"
  by (induction xs) (simp_all add: entry_count_Cons entry_count_Nil)

text \<open>
  Claim C10: the counts of the classifier count the entries of a tier list, not distinct
  keywords. A move appends the keyword to the destination list without looking for it
  there, so a keyword that is already in the destination tier is then listed (at least)
  twice. For a story whose search text contains it, each copy counts: the keyword alone
  contributes its number of copies, at least 2, to the count of that tier in the ladder,
  the count is one more than before the move while the number of distinct keywords found
  is the same, and the classifier decides on these counts: with the high tier as
  destination it returns High, with the moderate tier High or Moderate.
\<close>

theorem twice_listed_keyword_counts_twice:
  assumes "keyword \<in> set (tier_keywords src st)" and "keyword \<in> set (tier_keywords dst st)"
    and "src \<noteq> dst" and "occurs_in (lower keyword) (search_text s)"
  shows "\<exists>st'. move_keyword keyword src dst st = Inr st' \<and>
           tier_keywords dst st' = tier_keywords dst st @ [keyword] \<and>
           2 \<le> count_list (tier_keywords dst st') keyword \<and>
           keyword_count (map lower (filter (\<lambda>k. k = keyword) (tier_keywords dst st'))) (search_text s)
             = count_list (tier_keywords dst st') keyword \<and>
           keyword_count (map lower (tier_keywords dst st')) (search_text s)
             = keyword_count (map lower (tier_keywords dst st)) (search_text s) + 1 \<and>
           spec_distinct_count (tier_keywords dst st') (search_text s)
             = spec_distinct_count (tier_keywords dst st) (search_text s) \<and>
           analyze_slb_relevance st' s =
             tier_ladder (keyword_count (map lower (high_keywords st')) (search_text s))
               (keyword_count (map lower (moderate_keywords st')) (search_text s))
               (keyword_count (map lower (relevant_keywords st')) (search_text s))
               (occurs_in ''slb'' (search_text s) \<or> occurs_in ''schlumberger'' (search_text s)) \<and>
           (dst = HighTier \<longrightarrow> analyze_slb_relevance st' s = High) \<and>
           (dst = ModerateTier \<longrightarrow>
              analyze_slb_relevance st' s = High \<or> analyze_slb_relevance st' s = Moderate)"
proof -
  let ?st' = "set_tier src (remove1 keyword (tier_keywords src st))
                  (set_tier dst (tier_keywords dst st @ [keyword]) st)"
  let ?t = "search_text s"
  have 1: "move_keyword keyword src dst st = Inr ?st'"
    by (rule move_keyword_ok[OF assms(1,3)])
  have 2: "tier_keywords dst ?st' = tier_keywords dst st @ [keyword]"
    using assms(3) by (cases src; cases dst) simp_all
  have "count_list (tier_keywords dst st) keyword \<noteq> 0"
    using assms(2) by (simp add: count_list_0_iff)
  then have 3: "2 \<le> count_list (tier_keywords dst ?st') keyword" by (simp add: 2)
  have 4: "keyword_count (map lower (filter (\<lambda>k. k = keyword) (tier_keywords dst ?st'))) ?t
             = count_list (tier_keywords dst ?st') keyword"
    using entry_count_copies[OF assms(4)] by (simp only: keyword_count_entry_count)
  have one: "entry_count [keyword] ?t = 1"
    using assms(4) by (simp add: entry_count_def)
  have 5: "keyword_count (map lower (tier_keywords dst ?st')) ?t
             = keyword_count (map lower (tier_keywords dst st)) ?t + 1"
    using one by (simp only: keyword_count_entry_count 2 entry_count_append)
  have "set (tier_keywords dst ?st') = set (tier_keywords dst st)"
    using assms(2) by (auto simp: 2)
  then have 6: "spec_distinct_count (tier_keywords dst ?st') ?t
             = spec_distinct_count (tier_keywords dst st) ?t"
    by (rule spec_distinct_count_set)
  have 7: "analyze_slb_relevance ?st' s =
             tier_ladder (keyword_count (map lower (high_keywords ?st')) ?t)
               (keyword_count (map lower (moderate_keywords ?st')) ?t)
               (keyword_count (map lower (relevant_keywords ?st')) ?t)
               (occurs_in ''slb'' ?t \<or> occurs_in ''schlumberger'' ?t)"
    using analyze_ladder[of ?st' s] by (simp only: keyword_count_entry_count)
  have "keyword \<in> set (filter (\<lambda>k. occurs_in (lower k) ?t) (tier_keywords dst st))"
    using assms(2,4) by simp
  then have "0 < entry_count (tier_keywords dst st) ?t"
    unfolding entry_count_def by (metis length_pos_if_in_set)
  then have ge2: "2 \<le> keyword_count (map lower (tier_keywords dst ?st')) ?t"
    using 5 by (simp add: keyword_count_entry_count)
  have 8: "dst = HighTier \<longrightarrow> analyze_slb_relevance ?st' s = High"
  proof
    assume d: "dst = HighTier"
    then have "2 \<le> keyword_count (map lower (high_keywords ?st')) ?t" using ge2 by simp
    then show "analyze_slb_relevance ?st' s = High" unfolding 7 by (simp add: tier_ladder_def)
  qed
  have 9: "dst = ModerateTier \<longrightarrow>
              analyze_slb_relevance ?st' s = High \<or> analyze_slb_relevance ?st' s = Moderate"
  proof
    assume d: "dst = ModerateTier"
    then have "2 \<le> keyword_count (map lower (moderate_keywords ?st')) ?t" using ge2 by simp
    then show "analyze_slb_relevance ?st' s = High \<or> analyze_slb_relevance ?st' s = Moderate"
      unfolding 7 by (simp add: tier_ladder_def)
  qed
  from 1 2 3 4 5 6 7 8 9 show ?thesis by blast
qed

lemma drilling_story_before_move:
  "analyze_slb_relevance drilling_in_moderate (plain_story ''Drilling'' [] []) = Moderate"
proof -
  have low: "lower ''drilling'' = ''drilling''" by (simp add: text_defs)
  have hs: "filter (\<lambda>k. str_in k ''drilling  '') default_high = [''drilling'']"
    by (simp add: default_high_def)
  have ms: "filter (\<lambda>k. str_in k ''drilling  '') default_moderate = []"
    by (simp add: default_moderate_def)
  show ?thesis
    by (simp add: analyze_slb_relevance_def Let_def drilling_text keyword_count_length
        drilling_in_moderate_def default_session_eq lower_default_high lower_default_moderate
        low hs ms del: str_in.simps)
       simp
qed

text \<open>
  Claim C10 on the vocabulary reached by adding \<open>Drilling\<close> to the moderate list, and a
  story that mentions drilling once: before the move of \<open>drilling\<close> to High the story is
  Moderate, after it the high count is 2 for one distinct keyword and the story is High.
\<close>

theorem twice_listed_keyword_counts_twice_witness:
  "''drilling'' \<in> set (tier_keywords ModerateTier drilling_in_moderate) \<and>
   ''drilling'' \<in> set (tier_keywords HighTier drilling_in_moderate) \<and>
   ModerateTier \<noteq> HighTier \<and>
   occurs_in (lower ''drilling'') (search_text (plain_story ''Drilling'' [] [])) \<and>
   analyze_slb_relevance drilling_in_moderate (plain_story ''Drilling'' [] []) = Moderate \<and>
   move_keyword ''drilling'' ModerateTier HighTier drilling_in_moderate = Inr drilling_twice_in_high \<and>
   count_list (high_keywords drilling_twice_in_high) ''drilling'' = 2 \<and>
   keyword_count (map lower (high_keywords drilling_twice_in_high))
     (search_text (plain_story ''Drilling'' [] [])) = 2 \<and>
   spec_distinct_count (high_keywords drilling_twice_in_high)
     (search_text (plain_story ''Drilling'' [] [])) = 1 \<and>
   analyze_slb_relevance drilling_twice_in_high (plain_story ''Drilling'' [] []) = High"
proof -
  let ?s = "plain_story ''Drilling'' [] []"
  have low: "lower ''drilling'' = ''drilling''" by (simp add: text_defs)
  have a: "''drilling'' \<in> set (tier_keywords ModerateTier drilling_in_moderate)"
    by (simp add: drilling_in_moderate_def)
  have b: "''drilling'' \<in> set (tier_keywords HighTier drilling_in_moderate)"
    by (simp add: drilling_in_moderate_def default_session_eq default_high_def)
  have c: "ModerateTier \<noteq> HighTier" by simp
  have d: "occurs_in (lower ''drilling'') (search_text ?s)"
    unfolding low drilling_text by (simp flip: str_in_iff)
  have rem: "remove1 ''drilling'' (default_moderate @ [''drilling'']) = default_moderate"
    by (simp add: default_moderate_def)
  have mv: "move_keyword ''drilling'' ModerateTier HighTier drilling_in_moderate
      = Inr drilling_twice_in_high"
    by (simp add: move_keyword_def list_remove_def drilling_in_moderate_def
        drilling_twice_in_high_def default_session_eq rem)
  have hs: "filter (\<lambda>k. str_in k ''drilling  '') default_high = [''drilling'']"
    by (simp add: default_high_def)
  have cl: "count_list (high_keywords drilling_twice_in_high) ''drilling'' = 2"
    by (simp add: drilling_twice_in_high_def default_session_eq default_high_def)
  have kc: "keyword_count (map lower (high_keywords drilling_twice_in_high)) (search_text ?s) = 2"
    by (simp add: drilling_text keyword_count_length drilling_twice_in_high_def default_session_eq
        lower_default_high low hs del: str_in.simps; simp?)
  have sd: "spec_distinct_count (high_keywords drilling_twice_in_high) (search_text ?s) = 1"
    by (simp add: drilling_text spec_distinct_count_remdups drilling_twice_in_high_def
        default_session_eq lower_default_high low hs del: str_in.simps; simp?)
  from twice_listed_keyword_counts_twice[OF a b c d] mv
  have hi: "analyze_slb_relevance drilling_twice_in_high ?s = High" by auto
  from a b c d drilling_story_before_move mv cl kc sd hi show ?thesis by blast
qed

section \<open>Properties of the editorial summary\<close>

lemma ends_with_terminator_last:
  "ends_with_terminator s \<longleftrightarrow> s \<noteq> [] \<and> is_terminator (last s)"
  by (cases s rule: rev_cases) (simp_all add: ends_with_terminator_def)

lemma add_full_stop_ends: "ends_with_terminator (add_full_stop s)"
  by (simp add: add_full_stop_def ends_with_terminator_last is_terminator_def)

lemma summary_text_ends: "ends_with_terminator (summary_text d)"
  by (simp add: summary_text_def add_full_stop_ends)

text \<open>
  Claim C5, amended: for every story, the returned string has the shape
  "summary | date | Upstream", where the date is the date field of the story, and its
  summary part is not empty and ends in \<open>.\<close>, \<open>!\<close> or \<open>?\<close>.
\<close>

theorem summary_part_ends_in_terminator:
  "create_editorial_summary s = summary_text (description s) @ '' | '' @ date s @ '' | Upstream'' \<and>
   summary_text (description s) \<noteq> [] \<and>
   last (summary_text (description s)) \<in> {CHR ''.'', CHR ''!'', CHR ''?''}"
  using summary_text_ends[of "description s"]
  by (auto simp: create_editorial_summary_def ends_with_terminator_last is_terminator_def)

text \<open>The amended claim C5 on a description without a final full stop.\<close>

theorem summary_part_ends_in_terminator_witness:
  "create_editorial_summary (plain_story ''Oil'' ''Oil rose'' ''20 Jun 2025'')
     = ''Oil rose. | 20 Jun 2025 | Upstream'' \<and>
   summary_text ''Oil rose'' = ''Oil rose.''"
  using summary_part_ends_in_terminator[of "plain_story ''Oil'' ''Oil rose'' ''20 Jun 2025''"]
  by (simp add: plain_story_def summary_text_def add_full_stop_def ends_with_terminator_def
      is_terminator_def strip_def isspace_def)

text \<open>
  Claim C5, as stated, fails: the string that is returned ends in the source token
  \<open>Upstream\<close>, so its last character is \<open>m\<close>, not a terminator.
\<close>

theorem returned_string_ends_in_upstream:
  "create_editorial_summary (plain_story ''Oil'' ''Oil rose.'' ''20 Jun 2025'')
     = ''Oil rose. | 20 Jun 2025 | Upstream'' \<and>
   last (create_editorial_summary (plain_story ''Oil'' ''Oil rose.'' ''20 Jun 2025'')) = CHR ''m'' \<and>
   \<not> ends_with_terminator (create_editorial_summary (plain_story ''Oil'' ''Oil rose.'' ''20 Jun 2025''))"
  by (simp add: create_editorial_summary_def plain_story_def summary_text_def add_full_stop_def
      ends_with_terminator_def is_terminator_def strip_def isspace_def)

section \<open>Properties of the accumulation of sentences\<close>

lemma split_from_nonempty: "split_from b s \<noteq> []"
  by (induction s arbitrary: b) (auto split: list.splits)

lemma split_from_plain:
  "\<not> is_terminator c \<Longrightarrow> split_from b (replicate n c) = [replicate n c]"
  by (induction n arbitrary: b) auto

lemma split_from_no_terminator:
  "list_all (\<lambda>p. list_all (\<lambda>c. \<not> is_terminator c) p) (split_from b s)"
proof (induction s arbitrary: b)
  case Nil
  then show ?case by simp
next
  case (Cons a s)
  show ?case
  proof (cases "is_terminator a")
    case True
    then show ?thesis using Cons.IH[of True] by simp
  next
    case False
    obtain p ps where ps: "split_from False s = p # ps"
      using split_from_nonempty[of False s] by (cases "split_from False s") auto
    then show ?thesis using False Cons.IH[of False] by simp
  qed
qed

lemma split_from_concat:
  "concat (split_from b s) = filter (\<lambda>c. \<not> is_terminator c) s"
proof (induction s arbitrary: b)
  case Nil
  then show ?case by simp
next
  case (Cons a s)
  show ?case
  proof (cases "is_terminator a")
    case True
    then show ?thesis using Cons.IH[of True] by simp
  next
    case False
    obtain p ps where ps: "split_from False s = p # ps"
      using split_from_nonempty[of False s] by (cases "split_from False s") auto
    then show ?thesis using False Cons.IH[of False] by simp
  qed
qed

lemma accumulate_prefix:
  "\<exists>n\<le>length ss. accumulate ss parts c = parts @ map strip (take n ss) \<and>
      (n < length ss \<longrightarrow> 250 < c + sum_list (map length (take (Suc n) ss))) \<and>
      (c \<le> 250 \<longrightarrow> c + sum_list (map length (take n ss)) \<le> 250)"
proof (induction ss arbitrary: parts c)
  case Nil
  then show ?case by simp
next
  case (Cons s ss)
  show ?case
  proof (cases "c + length s > 250")
    case True
    then have "accumulate (s # ss) parts c = parts @ map strip (take 0 (s # ss))" by simp
    moreover have "250 < c + sum_list (map length (take (Suc 0) (s # ss)))" using True by simp
    ultimately show ?thesis by (intro exI[of _ 0]) simp
  next
    case False
    from Cons.IH[of "parts @ [strip s]" "c + length s"]
    obtain n where n: "n \<le> length ss"
      "accumulate ss (parts @ [strip s]) (c + length s) = (parts @ [strip s]) @ map strip (take n ss)"
      "n < length ss \<longrightarrow> 250 < (c + length s) + sum_list (map length (take (Suc n) ss))"
      "c + length s \<le> 250 \<longrightarrow> (c + length s) + sum_list (map length (take n ss)) \<le> 250"
      by blast
    show ?thesis
      using False n by (intro exI[of _ "Suc n"]) (simp add: add.assoc)
  qed
qed

lemma accumulate_first_too_long:
  "250 < length (hd ss) \<Longrightarrow> ss \<noteq> [] \<Longrightarrow> accumulate ss [] 0 = []"
  by (cases ss) simp_all

text \<open>
  Claim C8, amended: for a description of more than 300 characters, the summary is made of
  the first \<open>n\<close> sentences obtained by splitting the description on runs of terminators,
  each stripped of leading and trailing whitespace, joined with ". ", and then given its
  final full stop. The number \<open>n\<close> is where the running count of the lengths of the
  sentences, as split and not yet stripped, stays at most 250: sentence \<open>n + 1\<close>, if there
  is one, would push it over 250, and it and all later ones are dropped. If the first
  sentence alone is longer than 250, nothing is accumulated and the joined summary is
  empty before the full stop is added.
\<close>

theorem summary_accumulates_stripped_sentences:
  assumes "length descr > 300"
  shows "\<exists>n\<le>length (re_split descr).
           summary_text descr = add_full_stop (join ''. '' (map strip (take n (re_split descr)))) \<and>
           sum_list (map length (take n (re_split descr))) \<le> 250 \<and>
           (n < length (re_split descr) \<longrightarrow>
              250 < sum_list (map length (take (Suc n) (re_split descr)))) \<and>
           (250 < length (hd (re_split descr)) \<longrightarrow>
              n = 0 \<and> join ''. '' (accumulate (re_split descr) [] 0) = [])"
proof -
  from accumulate_prefix[of "re_split descr" "[]" 0]
  obtain n where n: "n \<le> length (re_split descr)"
    "accumulate (re_split descr) [] 0 = map strip (take n (re_split descr))"
    "n < length (re_split descr) \<longrightarrow> 250 < sum_list (map length (take (Suc n) (re_split descr)))"
    "sum_list (map length (take n (re_split descr))) \<le> 250"
    by auto
  have ne: "re_split descr \<noteq> []" by (simp add: re_split_def split_from_nonempty)
  have first: "250 < length (hd (re_split descr)) \<longrightarrow>
      n = 0 \<and> join ''. '' (accumulate (re_split descr) [] 0) = []"
  proof
    assume long: "250 < length (hd (re_split descr))"
    have "n = 0"
    proof (rule ccontr)
      assume "n \<noteq> 0"
      then obtain m where "n = Suc m" by (cases n) auto
      with n(4) ne long show False by (cases "re_split descr") auto
    qed
    moreover have "accumulate (re_split descr) [] 0 = []"
      using long ne by (rule accumulate_first_too_long)
    ultimately show "n = 0 \<and> join ''. '' (accumulate (re_split descr) [] 0) = []" by simp
  qed
  have "summary_text descr = add_full_stop (join ''. '' (map strip (take n (re_split descr))))"
    using assms n(2) by (simp add: summary_text_def)
  with n first show ?thesis by blast
qed

lemma re_split_sample:
  "re_split two_sentences_and_tail = [''Oil rose'', '' Gas fell'', CHR '' '' # replicate 300 CHR ''x'']"
proof -
  have x: "\<not> is_terminator CHR ''x''" by (simp add: is_terminator_def)
  show ?thesis
    by (simp add: re_split_def two_sentences_and_tail_def split_from_plain[OF x] is_terminator_def)
qed

text \<open>
  Claim C8, as stated, fails: the code joins the stripped sentences, not the sentences as
  split. On two short sentences followed by a long one it returns one blank after the
  full stop, where the join of the sentences themselves has two.
\<close>

theorem sentences_are_stripped_before_joining:
  "length two_sentences_and_tail > 300 \<and>
   summary_text two_sentences_and_tail = ''Oil rose. Gas fell.'' \<and>
   spec_summary_text two_sentences_and_tail = ''Oil rose.  Gas fell.''"
proof -
  have len: "length two_sentences_and_tail = 320" by (simp add: two_sentences_and_tail_def)
  have a: "summary_text two_sentences_and_tail = ''Oil rose. Gas fell.''"
    by (simp add: summary_text_def len re_split_sample add_full_stop_def ends_with_terminator_def
        is_terminator_def strip_def isspace_def)
  have b: "spec_summary_text two_sentences_and_tail = ''Oil rose.  Gas fell.''"
    by (simp add: spec_summary_text_def re_split_sample add_full_stop_def ends_with_terminator_def
        is_terminator_def)
  from len a b show ?thesis by simp
qed

text \<open>The amended claim C8 on the same description of 320 characters.\<close>

theorem summary_accumulates_stripped_sentences_witness:
  "length two_sentences_and_tail > 300 \<and>
   (\<exists>n\<le>length (re_split two_sentences_and_tail).
           summary_text two_sentences_and_tail
             = add_full_stop (join ''. '' (map strip (take n (re_split two_sentences_and_tail)))) \<and>
           sum_list (map length (take n (re_split two_sentences_and_tail))) \<le> 250 \<and>
           (n < length (re_split two_sentences_and_tail) \<longrightarrow>
              250 < sum_list (map length (take (Suc n) (re_split two_sentences_and_tail)))) \<and>
           (250 < length (hd (re_split two_sentences_and_tail)) \<longrightarrow>
              n = 0 \<and> join ''. '' (accumulate (re_split two_sentences_and_tail) [] 0) = []))"
proof -
  have h: "length two_sentences_and_tail > 300" by (simp add: two_sentences_and_tail_def)
  show ?thesis using h summary_accumulates_stripped_sentences[OF h] by blast
qed

section \<open>Properties of the feed parser\<close>

lemma foldl_append_map: "foldl (\<lambda>acc x. acc @ [f x]) acc xs = acc @ map f xs"
  by (induction xs arbitrary: acc) auto

lemma iter_head: "iter e = e # concat (map iter (elem_children e))"
  by (cases e) simp




section \<open>Properties of the date of an item\<close>

lemma eat_Some_iff:
  "eat p n s = Some r \<longleftrightarrow> (\<exists>xs. s = xs @ r \<and> length xs = n \<and> list_all p xs)"
proof (induction p n s rule: eat.induct)
  case (1 p s)
  then show ?case by auto
next
  case (2 p n)
  then show ?case by auto
next
  case (3 p n c s)
  show ?case
  proof (cases "p c")
    case True
    show ?thesis
    proof
      assume "eat p (Suc n) (c # s) = Some r"
      then obtain xs where "s = xs @ r" "length xs = n" "list_all p xs"
        using 3 True by auto
      then have "c # s = (c # xs) @ r \<and> length (c # xs) = Suc n \<and> list_all p (c # xs)"
        using True by simp
      then show "\<exists>xs. c # s = xs @ r \<and> length xs = Suc n \<and> list_all p xs" by blast
    next
      assume "\<exists>xs. c # s = xs @ r \<and> length xs = Suc n \<and> list_all p xs"
      then obtain xs where xs: "c # s = xs @ r" "length xs = Suc n" "list_all p xs" by blast
      then obtain ys where "xs = c # ys" by (cases xs) auto
      with xs have "s = ys @ r \<and> length ys = n \<and> list_all p ys" by simp
      then show "eat p (Suc n) (c # s) = Some r" using 3 True by auto
    qed
  next
    case False
    show ?thesis
    proof
      assume "eat p (Suc n) (c # s) = Some r"
      then show "\<exists>xs. c # s = xs @ r \<and> length xs = Suc n \<and> list_all p xs" using False by simp
    next
      assume "\<exists>xs. c # s = xs @ r \<and> length xs = Suc n \<and> list_all p xs"
      then obtain xs where xs: "c # s = xs @ r" "length xs = Suc n" "list_all p xs" by blast
      then obtain ys where "xs = c # ys" by (cases xs) auto
      with xs False show "eat p (Suc n) (c # s) = Some r" by simp
    qed
  qed
qed

lemma eat_blank_iff: "eat isblank (Suc 0) s = Some r \<longleftrightarrow> s = CHR '' '' # r"
  by (cases s) (auto simp: isblank_def)

lemma eat_month_year_iff:
  "eat_month_year s = Some r \<longleftrightarrow>
     (\<exists>ws ys. s = '' '' @ ws @ '' '' @ ys @ r \<and> length ws = 3 \<and> list_all isword ws \<and>
        length ys = 4 \<and> list_all isdigit ys)"
proof
  assume "eat_month_year s = Some r"
  then obtain s1 s2 s3 where
    1: "eat isblank (Suc 0) s = Some s1" and
    2: "eat isword (Suc (Suc (Suc 0))) s1 = Some s2" and
    3: "eat isblank (Suc 0) s2 = Some s3" and
    4: "eat isdigit (Suc (Suc (Suc (Suc 0)))) s3 = Some r"
    by (auto simp: eat_month_year_def split: option.splits)
  from 2 obtain ws where ws: "s1 = ws @ s2" "length ws = 3" "list_all isword ws"
    unfolding eat_Some_iff by (auto simp: numeral_3_eq_3)
  from 4 obtain ys where ys: "s3 = ys @ r" "length ys = 4" "list_all isdigit ys"
    unfolding eat_Some_iff by (auto simp: numeral_eq_Suc)
  from 1 have "s = CHR '' '' # s1" by (simp add: eat_blank_iff)
  moreover from 3 have "s2 = CHR '' '' # s3" by (simp add: eat_blank_iff)
  ultimately have "s = '' '' @ ws @ '' '' @ ys @ r" using ws ys by simp
  with ws ys show "\<exists>ws ys. s = '' '' @ ws @ '' '' @ ys @ r \<and> length ws = 3 \<and> list_all isword ws \<and>
        length ys = 4 \<and> list_all isdigit ys" by blast
next
  assume "\<exists>ws ys. s = '' '' @ ws @ '' '' @ ys @ r \<and> length ws = 3 \<and> list_all isword ws \<and>
        length ys = 4 \<and> list_all isdigit ys"
  then obtain ws ys where s: "s = '' '' @ ws @ '' '' @ ys @ r" and
    ws: "length ws = 3" "list_all isword ws" and ys: "length ys = 4" "list_all isdigit ys"
    by blast
  have 1: "eat isblank (Suc 0) s = Some (ws @ '' '' @ ys @ r)" using s by (simp add: isblank_def)
  have 2: "eat isword (Suc (Suc (Suc 0))) (ws @ '' '' @ ys @ r) = Some ('' '' @ ys @ r)"
    unfolding eat_Some_iff using ws by (intro exI[of _ ws]) (simp add: numeral_3_eq_3)
  have 3: "eat isblank (Suc 0) ('' '' @ ys @ r) = Some (ys @ r)" by (simp add: isblank_def)
  have 4: "eat isdigit (Suc (Suc (Suc (Suc 0)))) (ys @ r) = Some r"
    unfolding eat_Some_iff using ys by (intro exI[of _ ys]) (simp add: numeral_eq_Suc)
  show "eat_month_year s = Some r" using 1 2 3 4 by (simp add: eat_month_year_def)
qed


lemma not_isdigit_blank: "\<not> isdigit CHR '' ''"
  by (simp add: isdigit_def)

lemma date_shape_cases:
  assumes "date_shape cls m"
  shows "(length m = 10 \<and> m ! 1 = CHR '' '') \<or> (length m = 11 \<and> isdigit (m ! 1))"
proof -
  from assms obtain ds ws ys where m: "m = ds @ '' '' @ ws @ '' '' @ ys" and
    ds: "length ds = 1 \<or> length ds = 2" "list_all isdigit ds" and
    ws: "length ws = 3" and ys: "length ys = 4"
    unfolding date_shape_def by blast
  from ds(1) show ?thesis
  proof
    assume 1: "length ds = 1"
    then obtain d where "ds = [d]" by (cases ds) auto
    then show ?thesis using m ws ys by simp
  next
    assume 2: "length ds = 2"
    then obtain d e where de: "ds = [d, e]"
      by (cases ds; cases "tl ds") auto
    then have "isdigit e" using ds(2) by simp
    then show ?thesis using m ws ys de by simp
  qed
qed

lemma date_shape_same_start:
  assumes "date_shape cls m" and "date_shape cls m'" and "m @ post = m' @ post'"
  shows "m = m'"
proof -
  have eq_len: "length m = length m' \<Longrightarrow> m = m'"
    using assms(3) by (simp add: append_eq_append_conv)
  have nth: "1 < length m \<Longrightarrow> 1 < length m' \<Longrightarrow> m ! 1 = m' ! 1"
    using assms(3) by (metis nth_append)
  from date_shape_cases[OF assms(1)] date_shape_cases[OF assms(2)] show ?thesis
    using eq_len nth not_isdigit_blank by (elim disjE conjE) simp_all
qed

lemma match_at_Some:
  assumes "match_at s = Some m"
  shows "date_shape isword m \<and> (\<exists>post. s = m @ post)"
proof (cases "case eat isdigit (Suc (Suc 0)) s of None \<Rightarrow> None | Some r \<Rightarrow> eat_month_year r")
  case (Some r)
  then obtain r1 where r1: "eat isdigit (Suc (Suc 0)) s = Some r1" "eat_month_year r1 = Some r"
    by (auto split: option.splits)
  from r1(1) obtain ds where ds: "s = ds @ r1" "length ds = 2" "list_all isdigit ds"
    unfolding eat_Some_iff by auto
  from r1(2) obtain ws ys where w: "r1 = '' '' @ ws @ '' '' @ ys @ r" "length ws = 3"
    "list_all isword ws" "length ys = 4" "list_all isdigit ys"
    unfolding eat_month_year_iff by blast
  have m: "m = take 11 s" using assms Some by (simp add: match_at_def)
  have "take 11 s = ds @ '' '' @ ws @ '' '' @ ys" using ds w by simp
  then have "m = ds @ '' '' @ ws @ '' '' @ ys" using m by simp
  moreover from this have "s = m @ r" using ds w by simp
  ultimately show ?thesis unfolding date_shape_def using ds w by blast
next
  case None
  then have "match_at s =
      (case (case eat isdigit (Suc 0) s of None \<Rightarrow> None | Some r \<Rightarrow> eat_month_year r) of
             Some r \<Rightarrow> Some (take 10 s) | None \<Rightarrow> None)"
    by (simp add: match_at_def)
  with assms obtain r1 r where r1: "eat isdigit (Suc 0) s = Some r1" "eat_month_year r1 = Some r"
    and m: "m = take 10 s"
    by (auto split: option.splits)
  from r1(1) obtain ds where ds: "s = ds @ r1" "length ds = 1" "list_all isdigit ds"
    unfolding eat_Some_iff by auto
  from r1(2) obtain ws ys where w: "r1 = '' '' @ ws @ '' '' @ ys @ r" "length ws = 3"
    "list_all isword ws" "length ys = 4" "list_all isdigit ys"
    unfolding eat_month_year_iff by blast
  have "take 10 s = ds @ '' '' @ ws @ '' '' @ ys" using ds w by simp
  then have "m = ds @ '' '' @ ws @ '' '' @ ys" using m by simp
  moreover from this have "s = m @ r" using ds w by simp
  ultimately show ?thesis unfolding date_shape_def using ds w by blast
qed

lemma match_at_None:
  assumes "match_at s = None"
  shows "\<not> (\<exists>m post. s = m @ post \<and> date_shape isword m)"
proof
  assume "\<exists>m post. s = m @ post \<and> date_shape isword m"
  then obtain m post ds ws ys where s: "s = m @ post" and m: "m = ds @ '' '' @ ws @ '' '' @ ys" and
    ds: "length ds = 1 \<or> length ds = 2" "list_all isdigit ds" and
    ws: "length ws = 3" "list_all isword ws" and ys: "length ys = 4" "list_all isdigit ys"
    unfolding date_shape_def by blast
  have my: "eat_month_year ('' '' @ ws @ '' '' @ ys @ post) = Some post"
    unfolding eat_month_year_iff using ws ys by blast
  have sd: "s = ds @ ('' '' @ ws @ '' '' @ ys @ post)" using s m by simp
  from ds(1) show False
  proof
    assume 1: "length ds = 1"
    have "eat isdigit (Suc 0) s = Some ('' '' @ ws @ '' '' @ ys @ post)"
      unfolding eat_Some_iff using sd 1 ds(2) by (intro exI[of _ ds]) simp
    then show False using assms my by (simp add: match_at_def split: option.splits)
  next
    assume 2: "length ds = 2"
    have "eat isdigit (Suc (Suc 0)) s = Some ('' '' @ ws @ '' '' @ ys @ post)"
      unfolding eat_Some_iff using sd 2 ds(2) by (intro exI[of _ ds]) simp
    then show False using assms my by (simp add: match_at_def split: option.splits)
  qed
qed

lemma date_shape_nonempty: "date_shape cls m \<Longrightarrow> m \<noteq> []"
  by (auto simp: date_shape_def)

lemma re_search_None: "re_search t = None \<Longrightarrow> \<not> has_date_match isword t"
proof (induction t)
  case Nil
  then show ?case by (auto simp: has_date_match_def dest: date_shape_nonempty)
next
  case (Cons c s)
  from Cons.prems have ma: "match_at (c # s) = None" and rs: "re_search s = None"
    by (auto split: option.splits)
  show ?case
  proof
    assume "has_date_match isword (c # s)"
    then obtain pre m post where pm: "c # s = pre @ m @ post" "date_shape isword m"
      unfolding has_date_match_def by blast
    show False
    proof (cases pre)
      case Nil
      then show ?thesis using pm match_at_None[OF ma] by auto
    next
      case (Cons e pre')
      then have "s = pre' @ m @ post" using pm(1) by simp
      then have "has_date_match isword s" using pm(2) unfolding has_date_match_def by blast
      then show ?thesis using Cons.IH[OF rs] by simp
    qed
  qed
qed

lemma re_search_Some: "re_search t = Some m \<Longrightarrow> first_date_match isword t m"
proof (induction t)
  case Nil
  then show ?case by simp
next
  case (Cons c s)
  show ?case
  proof (cases "match_at (c # s)")
    case (Some m0)
    then have mm: "m0 = m" using Cons.prems by simp
    from match_at_Some[OF Some] mm obtain post where
      sh: "date_shape isword m" and sp: "c # s = m @ post" by blast
    have "\<forall>pre' m' post'. c # s = pre' @ m' @ post' \<and> date_shape isword m' \<longrightarrow>
           length ([]::string) \<le> length pre' \<and> (length pre' = length ([]::string) \<longrightarrow> m' = m)"
    proof (intro allI impI)
      fix pre' m' post'
      assume a: "c # s = pre' @ m' @ post' \<and> date_shape isword m'"
      show "length ([]::string) \<le> length pre' \<and> (length pre' = length ([]::string) \<longrightarrow> m' = m)"
      proof (intro conjI impI)
        show "length ([]::string) \<le> length pre'" by simp
        assume "length pre' = length ([]::string)"
        then have "m' @ post' = m @ post" using a sp by simp
        then show "m' = m" using a sh date_shape_same_start by blast
      qed
    qed
    moreover have "c # s = [] @ m @ post" using sp by simp
    ultimately show ?thesis unfolding first_date_match_def using sh by blast
  next
    case None
    then have rs: "re_search s = Some m" using Cons.prems by simp
    from Cons.IH[OF rs] obtain pre post where
      sp: "s = pre @ m @ post" and sh: "date_shape isword m" and
      fst: "\<forall>pre' m' post'. s = pre' @ m' @ post' \<and> date_shape isword m' \<longrightarrow>
           length pre \<le> length pre' \<and> (length pre' = length pre \<longrightarrow> m' = m)"
      unfolding first_date_match_def by blast
    have "\<forall>pre' m' post'. c # s = pre' @ m' @ post' \<and> date_shape isword m' \<longrightarrow>
           length (c # pre) \<le> length pre' \<and> (length pre' = length (c # pre) \<longrightarrow> m' = m)"
    proof (intro allI impI)
      fix pre' m' post'
      assume a: "c # s = pre' @ m' @ post' \<and> date_shape isword m'"
      show "length (c # pre) \<le> length pre' \<and> (length pre' = length (c # pre) \<longrightarrow> m' = m)"
      proof (cases pre')
        case Nil
        then show ?thesis using a match_at_None[OF None] by auto
      next
        case (Cons e pre'')
        then have "s = pre'' @ m' @ post'" using a by simp
        then have "length pre \<le> length pre'' \<and> (length pre'' = length pre \<longrightarrow> m' = m)"
          using fst a by blast
        then show ?thesis using Cons by simp
      qed
    qed
    moreover have "c # s = (c # pre) @ m @ post" using sp by simp
    ultimately show ?thesis unfolding first_date_match_def using sh by blast
  qed
qed

lemma first_date_match_has: "first_date_match cls t m \<Longrightarrow> has_date_match cls t"
  unfolding first_date_match_def has_date_match_def by blast

text \<open>
  The date extracted from the text of a \<open>pubDate\<close> element: \<open>Unknown\<close> without a text,
  otherwise the part that starts first among those of the shape of the pattern, or the
  first 10 characters when no part has that shape.
\<close>

lemma extract_date_first_match:
  "extract_date None = ''Unknown'' \<and> extract_date (Some []) = ''Unknown'' \<and>
   (t \<noteq> [] \<longrightarrow>
      (if has_date_match isword t then first_date_match isword t (extract_date (Some t))
       else extract_date (Some t) = take 10 t))"
proof -
  have "t \<noteq> [] \<longrightarrow>
      (if has_date_match isword t then first_date_match isword t (extract_date (Some t))
       else extract_date (Some t) = take 10 t)"
  proof
    assume ne: "t \<noteq> []"
    show "if has_date_match isword t then first_date_match isword t (extract_date (Some t))
       else extract_date (Some t) = take 10 t"
    proof (cases "re_search t")
      case None
      then have "\<not> has_date_match isword t" by (rule re_search_None)
      moreover have "extract_date (Some t) = take 10 t"
        using ne None by (simp add: extract_date_def)
      ultimately show ?thesis by simp
    next
      case (Some m)
      then have f: "first_date_match isword t m" by (rule re_search_Some)
      moreover have "extract_date (Some t) = m" using ne Some by (simp add: extract_date_def)
      ultimately show ?thesis using first_date_match_has by auto
    qed
  qed
  then show ?thesis by (simp add: extract_date_def)
qed

lemmas date_defs = extract_date_def match_at_def eat_month_year_def isdigit_def isword_def isblank_def

lemma parse_dates:
  "map date (parse_rss_content (Some root))
     = map (\<lambda>item. date (make_story item)) (findall_descendants ''item'' root)"
  by (simp add: parse_rss_content_def foldl_append_map)

lemma date_make_story: "date (make_story item) = extract_date (pub_date_text item)"
  by (simp add: make_story_def)

text \<open>
  Claim C6, amended: the date field of the story made from a parsed item, which is the
  date field of the corresponding story returned by the parser, is \<open>Unknown\<close> when the
  item has no \<open>pubDate\<close> child or one whose text is absent or empty. Otherwise it is the
  part of that text that starts first among those of the shape "one or two digits, blank,
  three word characters (letters, digits or underscore), blank, four digits", when there
  is one, and the first 10 characters of the text when there is none.
\<close>

theorem date_of_parsed_item:
  "map date (parse_rss_content (Some root))
     = map (\<lambda>item. date (make_story item)) (findall_descendants ''item'' root) \<and>
   (case find_child ''pubDate'' item of
      None \<Rightarrow> date (make_story item) = ''Unknown''
    | Some e \<Rightarrow>
        (case elem_text e of
           None \<Rightarrow> date (make_story item) = ''Unknown''
         | Some t \<Rightarrow>
             if t = [] then date (make_story item) = ''Unknown''
             else if has_date_match isword t
               then first_date_match isword t (date (make_story item))
               else date (make_story item) = take 10 t))"
proof -
  have "case find_child ''pubDate'' item of
      None \<Rightarrow> date (make_story item) = ''Unknown''
    | Some e \<Rightarrow>
        (case elem_text e of
           None \<Rightarrow> date (make_story item) = ''Unknown''
         | Some t \<Rightarrow>
             if t = [] then date (make_story item) = ''Unknown''
             else if has_date_match isword t
               then first_date_match isword t (date (make_story item))
               else date (make_story item) = take 10 t)"
  proof (cases "find_child ''pubDate'' item")
    case None
    then show ?thesis by (simp add: date_make_story pub_date_text_def extract_date_def)
  next
    case (Some e)
    show ?thesis
    proof (cases "elem_text e")
      case None
      then show ?thesis using Some by (simp add: date_make_story pub_date_text_def extract_date_def)
    next
      case (Some t)
      have d: "date (make_story item) = extract_date (Some t)"
        using Some \<open>find_child ''pubDate'' item = Some e\<close>
        by (simp add: date_make_story pub_date_text_def)
      show ?thesis
        using extract_date_first_match[of t] Some \<open>find_child ''pubDate'' item = Some e\<close>
        by (simp add: d)
    qed
  qed
  with parse_dates show ?thesis by blast
qed

lemma small_feed_dates:
  "map date (parse_rss_content (Some small_feed)) = [''20 Jun 2025'', ''Unknown'']"
proof -
  have d: "extract_date (Some ''Fri, 20 Jun 2025 18:11:59 +0200'') = ''20 Jun 2025''"
    by (simp add: date_defs)
  have u: "extract_date None = ''Unknown''" by (simp add: extract_date_def)
  show ?thesis
    by (simp add: parse_rss_content_def findall_descendants_def small_feed_def make_story_def
        pub_date_text_def find_child_def d u)
qed

text \<open>
  The amended claim C6 on the feed with two items, the first with the date format named
  in the source, the second without a date.
\<close>

theorem date_of_parsed_item_witness:
  "map date (parse_rss_content (Some small_feed)) = [''20 Jun 2025'', ''Unknown''] \<and>
   find_child ''pubDate''
     (Element ''item'' None
        [Element ''title'' (Some '' First '') [],
         Element ''pubDate'' (Some ''Fri, 20 Jun 2025 18:11:59 +0200'') []])
     = Some (Element ''pubDate'' (Some ''Fri, 20 Jun 2025 18:11:59 +0200'') []) \<and>
   has_date_match isword ''Fri, 20 Jun 2025 18:11:59 +0200'' \<and>
   first_date_match isword ''Fri, 20 Jun 2025 18:11:59 +0200''
     (date (make_story
        (Element ''item'' None
           [Element ''title'' (Some '' First '') [],
            Element ''pubDate'' (Some ''Fri, 20 Jun 2025 18:11:59 +0200'') []]))) \<and>
   date (make_story
        (Element ''item'' None
           [Element ''title'' (Some '' First '') [],
            Element ''pubDate'' (Some ''Fri, 20 Jun 2025 18:11:59 +0200'') []])) = ''20 Jun 2025''"
proof -
  let ?item = "Element ''item'' None
           [Element ''title'' (Some '' First '') [],
            Element ''pubDate'' (Some ''Fri, 20 Jun 2025 18:11:59 +0200'') []]"
  have f: "find_child ''pubDate'' ?item
     = Some (Element ''pubDate'' (Some ''Fri, 20 Jun 2025 18:11:59 +0200'') [])"
    by (simp add: find_child_def)
  have e: "extract_date (Some ''Fri, 20 Jun 2025 18:11:59 +0200'') = ''20 Jun 2025''"
    by (simp add: date_defs)
  have d: "date (make_story ?item) = ''20 Jun 2025''"
    by (simp add: make_story_def pub_date_text_def f e)
  have t: "take 10 ''Fri, 20 Jun 2025 18:11:59 +0200'' \<noteq> ''20 Jun 2025''" by simp
  have "if has_date_match isword ''Fri, 20 Jun 2025 18:11:59 +0200''
        then first_date_match isword ''Fri, 20 Jun 2025 18:11:59 +0200'' (date (make_story ?item))
        else date (make_story ?item) = take 10 ''Fri, 20 Jun 2025 18:11:59 +0200''"
    using date_of_parsed_item[of small_feed ?item] by (simp add: f)
  then have "has_date_match isword ''Fri, 20 Jun 2025 18:11:59 +0200'' \<and>
      first_date_match isword ''Fri, 20 Jun 2025 18:11:59 +0200'' (date (make_story ?item))"
    using t unfolding d by (auto split: if_splits)
  with small_feed_dates f d show ?thesis by blast
qed

text \<open>
  Claim C6, as stated, fails: the pattern asks for three word characters, not for the
  letters of a month. The text \<open>10 123 2025\<close> of the \<open>pubDate\<close> of an item has no part
  with three letters between the blanks, yet the story made from the item, and returned by
  the parser for a feed with this item, has the whole text as its date, not the first 10
  characters.
\<close>

theorem digits_taken_for_month:
  "find_child ''pubDate'' odd_date_item = Some (Element ''pubDate'' (Some ''10 123 2025'') []) \<and>
   \<not> has_date_match isletter ''10 123 2025'' \<and>
   take 10 ''10 123 2025'' = ''10 123 202'' \<and>
   date (make_story odd_date_item) = ''10 123 2025'' \<and>
   map date (parse_rss_content (Some odd_date_feed)) = [''10 123 2025'']"
proof -
  have f: "find_child ''pubDate'' odd_date_item = Some (Element ''pubDate'' (Some ''10 123 2025'') [])"
    by (simp add: find_child_def odd_date_item_def)
  have n: "\<not> has_date_match isletter ''10 123 2025''"
  proof
    assume "has_date_match isletter ''10 123 2025''"
    then obtain pre m post ds ws ys where
      t: "''10 123 2025'' = pre @ m @ post" and m: "m = ds @ '' '' @ ws @ '' '' @ ys" and
      ws: "length ws = 3" "list_all isletter ws"
      unfolding has_date_match_def date_shape_def by blast
    from ws obtain w where w: "w \<in> set ws" "isletter w"
      by (cases ws) auto
    then have "w \<in> set (pre @ m @ post)" using m by simp
    then have "w \<in> set ''10 123 2025''" using t by simp
    then show False using w(2) by (auto simp: isletter_def)
  qed
  have e: "extract_date (Some ''10 123 2025'') = ''10 123 2025''"
    by (simp add: date_defs)
  have d: "date (make_story odd_date_item) = ''10 123 2025''"
    by (simp add: make_story_def pub_date_text_def f e)
  have tg: "elem_tag odd_date_item = ''item''" by (simp add: odd_date_item_def)
  have it: "iter odd_date_item = odd_date_item # concat (map iter (elem_children odd_date_item))"
    by (rule iter_head)
  have nt: "filter (\<lambda>c. elem_tag c = ''item'') (concat (map iter (elem_children odd_date_item))) = []"
    by (simp add: odd_date_item_def)
  have "findall_descendants ''item'' odd_date_feed = [odd_date_item]"
    by (simp add: findall_descendants_def odd_date_feed_def it tg nt)
  then have p: "map date (parse_rss_content (Some odd_date_feed)) = [''10 123 2025'']"
    by (simp add: parse_dates d)
  from f n d p show ?thesis by simp
qed

end
